theory Spec2Isabelle
  imports Complex_Main "HOL-Library.Multiset"
begin

section \<open>The spin engine of the price wheel (script.js)\<close>

text \<open>
  The repository's \<^verbatim>\<open>script.js\<close> holds three revisions of the page script. The wheel
  logic of the first and the third revision is the same text (\<^verbatim>\<open>getIndexAtCentre\<close> at
  lines 432 and 2369, \<^verbatim>\<open>spinWheel\<close> at lines 450 and 2387); the second revision
  (lines 1419 and 1442) reads the offset with the opposite sign. The embedding
  takes the revision as a parameter: \<open>V1\<close> is the text of the first and third
  revision, \<open>V2\<close> the text of the second.

  JavaScript numbers are modelled as rationals, that is in exact arithmetic:
  every operation of the wheel logic (\<^verbatim>\<open>+ - * /\<close>, \<^verbatim>\<open>%\<close>, \<^verbatim>\<open>Math.floor\<close>,
  \<^verbatim>\<open>Math.min\<close>, the cube) is rational on rational arguments. The theorems below
  therefore speak about the algorithm, not about rounding in IEEE doubles.
  The one non-finite value the code can produce, \<^verbatim>\<open>NaN\<close>, is a value of its own.
\<close>

subsection \<open>Numbers\<close>

text \<open>
  A value of one of the index variables (\<^verbatim>\<open>selectedIndex\<close>, \<^verbatim>\<open>lastTickIndex\<close>, the
  result of \<^verbatim>\<open>getIndexAtCentre\<close>): \<^verbatim>\<open>null\<close>, \<^verbatim>\<open>NaN\<close> or an integer.
\<close>

datatype jsval = Null | NaN | Num int

datatype revision = V1 | V2

text \<open>\<^verbatim>\<open>a !== b\<close> on these values: \<^verbatim>\<open>NaN\<close> differs from everything, itself included.\<close>

definition js_neq :: "jsval \<Rightarrow> jsval \<Rightarrow> bool" where
  "js_neq a b = (a = NaN \<or> b = NaN \<or> a \<noteq> b)"

text \<open>
  The remainder operator \<^verbatim>\<open>%\<close> truncates the quotient towards zero, so the result
  has the sign of the dividend: \<^verbatim>\<open>a % b = a - b * trunc(a / b)\<close>. It is used here
  with a non-zero divisor only (see \<open>getIndexAtCentre\<close> for the zero case).
\<close>

definition js_trunc :: "rat \<Rightarrow> int" where
  "js_trunc x = (if 0 \<le> x then \<lfloor>x\<rfloor> else \<lceil>x\<rceil>)"

definition js_rem :: "rat \<Rightarrow> rat \<Rightarrow> rat" where
  "js_rem a b = a - b * of_int (js_trunc (a / b))"

definition js_rem_int :: "int \<Rightarrow> int \<Rightarrow> int" where
  "js_rem_int a b = \<lfloor>js_rem (of_int a) (of_int b)\<rfloor>"

subsection \<open>Geometry\<close>

text \<open>
  \<^verbatim>\<open>const ch = canvas.height; const wheelHeight = ch * 0.8;\<close> The canvas height is
  an unsigned integer that the script never writes, so it is a parameter \<open>ch\<close> of
  the whole model.
\<close>

definition wheelHeight :: "nat \<Rightarrow> rat" where
  "wheelHeight ch = of_nat ch * (4 / 5)"

text \<open>
  \<^verbatim>\<open>getIndexAtCentre(items, offset)\<close>. With \<open>ch = 0\<close> the wheel height is \<open>0\<close> and
  \<^verbatim>\<open>x % 0\<close> is \<^verbatim>\<open>NaN\<close>; with an empty list the last \<^verbatim>\<open>% items.length\<close> is \<^verbatim>\<open>% 0\<close>.
  In both cases, and only then, the function returns \<^verbatim>\<open>NaN\<close>.
\<close>

definition getIndexAtCentre :: "revision \<Rightarrow> nat \<Rightarrow> 'a list \<Rightarrow> rat \<Rightarrow> jsval" where
  "getIndexAtCentre v ch items offset =
     (if ch = 0 \<or> length items = 0 then NaN
      else
        let segHeight = wheelHeight ch / of_nat (length items);
            y = (of_nat ch - wheelHeight ch) / 2;
            centerY = of_nat ch / 2
        in case v of
             V1 \<Rightarrow>
               let posInWheel = centerY - y + offset;
                   index = \<lfloor>js_rem posInWheel (wheelHeight ch) / segHeight\<rfloor>
               in Num (js_rem_int (index + int (length items)) (int (length items)))
           | V2 \<Rightarrow>
               let relativePos = centerY - y - offset;
                   normalizedPos =
                     js_rem (js_rem relativePos (wheelHeight ch) + wheelHeight ch) (wheelHeight ch);
                   index = \<lfloor>normalizedPos / segHeight\<rfloor>
               in Num (js_rem_int index (int (length items))))"

text \<open>
  The target of a spin, \<^verbatim>\<open>const finalOffset = ...\<close> in \<^verbatim>\<open>spinWheel\<close>, for a list of
  \<open>n\<close> items and the chosen index.
\<close>

definition spin_finalOffset :: "revision \<Rightarrow> nat \<Rightarrow> nat \<Rightarrow> int \<Rightarrow> rat" where
  "spin_finalOffset v ch n selIndex =
     (let segHeight = wheelHeight ch / of_nat n;
          y = (of_nat ch - wheelHeight ch) / 2;
          centerY = of_nat ch / 2
      in case v of
           V1 \<Rightarrow> of_int selIndex * segHeight + segHeight / 2 + y - centerY
         | V2 \<Rightarrow> centerY - y - of_int selIndex * segHeight - segHeight / 2)"

text \<open>
  The normalisation on the last frame:
  \<^verbatim>\<open>((finalOffset % wheelHeight) + wheelHeight) % wheelHeight\<close>.
\<close>

definition normalizeOffset :: "rat \<Rightarrow> rat \<Rightarrow> rat" where
  "normalizeOffset fo wh = js_rem (js_rem fo wh + wh) wh"

subsection \<open>State\<close>

text \<open>
  The constants that the closure \<^verbatim>\<open>animate\<close> captures from its call of \<^verbatim>\<open>spinWheel\<close>.
  (It also captures \<^verbatim>\<open>wheelHeight\<close>, which is \<open>wheelHeight ch\<close>, and \<^verbatim>\<open>duration\<close>.)
\<close>

record animation =
  startTime :: rat
  startOffset :: rat
  distance :: rat
  finalOffset :: rat

text \<open>
  The module-level variables of the script, and what the claims observe of its
  effects: \<open>tickCount\<close> counts the calls of \<^verbatim>\<open>playTickSound\<close>, \<open>shown\<close> lists the
  \<^verbatim>\<open>selectedValue\<close> of every result written to the overlay (\<open>None\<close> is
  \<^verbatim>\<open>undefined\<close>), and \<open>pending\<close> holds the callbacks handed to
  \<^verbatim>\<open>requestAnimationFrame\<close> that have not run yet. Arrays are values here: the
  script never shares one array between \<^verbatim>\<open>currentItems\<close> and \<^verbatim>\<open>originalItems\<close>
  (each assignment goes through \<^verbatim>\<open>slice()\<close>), so no claim depends on aliasing.
\<close>

record state =
  currentItems :: "string list"
  currentOffset :: rat
  isSpinning :: bool
  selectedIndex :: jsval
  originalItems :: "string list"
  lastTickIndex :: jsval
  tickCount :: nat
  shown :: "string option list"
  pending :: "animation list"

definition initial :: state where
  "initial = \<lparr>currentItems = [], currentOffset = 0, isSpinning = False, selectedIndex = Null,
     originalItems = [], lastTickIndex = Num (- 1), tickCount = 0, shown = [], pending = []\<rparr>"

text \<open>\<^verbatim>\<open>items[i]\<close>: \<^verbatim>\<open>undefined\<close> unless \<open>i\<close> is an index of the array.\<close>

definition element :: "'a list \<Rightarrow> jsval \<Rightarrow> 'a option" where
  "element xs i =
     (case i of
        Num k \<Rightarrow> if 0 \<le> k \<and> k < int (length xs) then Some (xs ! nat k) else None
      | _ \<Rightarrow> None)"

text \<open>
  \<^verbatim>\<open>items.splice(i, 1)\<close>: \<^verbatim>\<open>null\<close> and \<^verbatim>\<open>NaN\<close> count as \<open>0\<close>, a negative start counts
  from the end, and the start is clamped to the array.
\<close>

definition splice1 :: "jsval \<Rightarrow> 'a list \<Rightarrow> 'a list" where
  "splice1 i xs =
     (let len = int (length xs);
          rel = (case i of Num k \<Rightarrow> k | _ \<Rightarrow> 0);
          start = (if rel < 0 then max (len + rel) 0 else min rel len)
      in take (nat start) xs @ drop (nat start + 1) xs)"

subsection \<open>The animation\<close>

definition duration :: rat where
  "duration = 4000"

definition progressAt :: "animation \<Rightarrow> rat \<Rightarrow> rat" where
  "progressAt a now = (let elapsed = now - startTime a in min (elapsed / duration) 1)"

definition offsetAt :: "animation \<Rightarrow> rat \<Rightarrow> rat" where
  "offsetAt a now =
     (let progress = progressAt a now;
          easeOut = 1 - (1 - progress) ^ 3
      in startOffset a + distance a * easeOut)"

text \<open>
  One call \<^verbatim>\<open>animate(now)\<close> of the closure \<open>a\<close>. \<^verbatim>\<open>requestAnimationFrame(animate)\<close>
  appends the closure to \<open>pending\<close>. Drawing, the audio and the style of the overlay
  are left out; the write of the result to the overlay is the entry of \<open>shown\<close>.
  (The first and third revision also start a timer that copies the same content
  to the permanent result element five seconds later; it reads no state.)
\<close>

definition animate :: "revision \<Rightarrow> nat \<Rightarrow> animation \<Rightarrow> rat \<Rightarrow> state \<Rightarrow> state" where
  "animate v ch a now s =
     (let progress = progressAt a now;
          s1 = s\<lparr>currentOffset := offsetAt a now\<rparr>;
          currentIndex = getIndexAtCentre v ch (currentItems s1) (currentOffset s1);
          s2 = (if js_neq currentIndex (lastTickIndex s1) \<and> isSpinning s1
                then s1\<lparr>lastTickIndex := currentIndex, tickCount := tickCount s1 + 1\<rparr>
                else s1)
      in if progress < 1 then s2\<lparr>pending := pending s2 @ [a]\<rparr>
         else
           let s3 = s2\<lparr>currentOffset := normalizeOffset (finalOffset a) (wheelHeight ch),
                       isSpinning := False, lastTickIndex := Num (- 1)\<rparr>;
               idx = getIndexAtCentre v ch (currentItems s3) (currentOffset s3);
               s4 = s3\<lparr>selectedIndex := idx\<rparr>;
               selectedValue = element (currentItems s4) (selectedIndex s4)
           in s4\<lparr>shown := shown s4 @ [selectedValue],
                 currentItems := splice1 (selectedIndex s4) (currentItems s4),
                 currentOffset := 0\<rparr>)"

text \<open>
  \<^verbatim>\<open>spinWheel()\<close>. \<open>r\<close> is the value of \<^verbatim>\<open>Math.random()\<close>, in \<open>[0, 1)\<close>, and \<open>now\<close> the
  value of \<^verbatim>\<open>performance.now()\<close>.
\<close>

definition spinWheel :: "revision \<Rightarrow> nat \<Rightarrow> rat \<Rightarrow> rat \<Rightarrow> state \<Rightarrow> state" where
  "spinWheel v ch r now s =
     (if isSpinning s \<or> length (currentItems s) = 0 then s
      else
        let sel = \<lfloor>r * of_nat (length (currentItems s))\<rfloor>;
            fo = spin_finalOffset v ch (length (currentItems s)) sel;
            rotations = 3;
            targetOffset = fo + rotations * wheelHeight ch;
            so = currentOffset s;
            dist = targetOffset - so
        in s\<lparr>selectedIndex := Num sel, isSpinning := True,
              pending := pending s @
                [\<lparr>startTime = now, startOffset = so, distance = dist, finalOffset = fo\<rparr>]\<rparr>)"

text \<open>
  One display refresh at time \<open>now\<close>: the browser runs the callbacks registered
  before the refresh, in order; a callback registered during the refresh waits
  for the next one.
\<close>

definition frame :: "revision \<Rightarrow> nat \<Rightarrow> rat \<Rightarrow> state \<Rightarrow> state" where
  "frame v ch now s = fold (\<lambda>a. animate v ch a now) (pending s) (s\<lparr>pending := []\<rparr>)"

subsection \<open>Generate and reset\<close>

text \<open>
  \<^verbatim>\<open>shuffleArray\<close>, the loop \<^verbatim>\<open>for (let i = array.length - 1; i > 0; i--)\<close>; \<open>rnd i\<close> is
  the value of \<^verbatim>\<open>Math.random()\<close> in the iteration with index \<open>i\<close>, in \<open>[0, 1)\<close>, so
  that \<open>j \<le> i\<close>.
\<close>

fun shuffleLoop :: "(nat \<Rightarrow> rat) \<Rightarrow> nat \<Rightarrow> 'a list \<Rightarrow> 'a list" where
  "shuffleLoop rnd 0 xs = xs"
| "shuffleLoop rnd (Suc i) xs =
     (let j = nat \<lfloor>rnd (Suc i) * of_nat (Suc i + 1)\<rfloor>
      in shuffleLoop rnd i (xs[Suc i := xs ! j, j := xs ! Suc i]))"

definition shuffleArray :: "(nat \<Rightarrow> rat) \<Rightarrow> 'a list \<Rightarrow> 'a list" where
  "shuffleArray rnd xs = shuffleLoop rnd (length xs - 1) xs"

text \<open>
  The click handler of the generate button; \<open>input\<close> is the list that
  \<^verbatim>\<open>parseInput()\<close> (or \<^verbatim>\<open>getCurrentTags()\<close>) returns.
\<close>

definition generate :: "(nat \<Rightarrow> rat) \<Rightarrow> string list \<Rightarrow> state \<Rightarrow> state" where
  "generate rnd input s =
     (if length input = 0 then s
      else
        let items = shuffleArray rnd input
        in s\<lparr>currentItems := items, originalItems := items, currentOffset := 0,
              selectedIndex := Null, isSpinning := False, lastTickIndex := Num (- 1)\<rparr>)"

text \<open>The click handler of the reset button.\<close>

definition reset :: "state \<Rightarrow> state" where
  "reset s =
     (if length (originalItems s) = 0 then s
      else s\<lparr>currentItems := originalItems s, currentOffset := 0, selectedIndex := Null,
             isSpinning := False\<rparr>)"

subsection \<open>Event sequences\<close>

text \<open>
  What can happen to the page between two states: a click on one of the three
  buttons, or a display refresh.
\<close>

datatype event = Spin rat rat | Frame rat | Reset | Generate "nat \<Rightarrow> rat" "string list"

fun step :: "revision \<Rightarrow> nat \<Rightarrow> event \<Rightarrow> state \<Rightarrow> state" where
  "step v ch (Spin r now) s = spinWheel v ch r now s"
| "step v ch (Frame now) s = frame v ch now s"
| "step v ch Reset s = reset s"
| "step v ch (Generate rnd input) s = generate rnd input s"

definition run :: "revision \<Rightarrow> nat \<Rightarrow> event list \<Rightarrow> state \<Rightarrow> state" where
  "run v ch es s = fold (step v ch) es s"

text \<open>
  A completed spin \<open>(r, t, ts, now)\<close>: the click at time \<open>t\<close> with random value \<open>r\<close>,
  refreshes at the times \<open>ts\<close> before the duration has passed, and the refresh at
  \<open>now\<close> on which \<open>progress\<close> reaches \<open>1\<close>.
\<close>

type_synonym spin = "rat \<times> rat \<times> rat list \<times> rat"

definition spinEvents :: "spin \<Rightarrow> event list" where
  "spinEvents = (\<lambda>(r, t, ts, now). Spin r t # map Frame ts @ [Frame now])"

definition validSpin :: "spin \<Rightarrow> bool" where
  "validSpin = (\<lambda>(r, t, ts, now).
     0 \<le> r \<and> r < 1 \<and> list_all (\<lambda>u. u - t < duration) ts \<and> duration \<le> now - t)"

text \<open>The page is idle: no spin is running and no animation callback is waiting.\<close>

definition idle :: "state \<Rightarrow> bool" where
  "idle s = (\<not> isSpinning s \<and> pending s = [] \<and> lastTickIndex s = Num (- 1))"

subsection \<open>Notions used to state the properties\<close>

text \<open>The remainder with a non-negative result, \<open>a - b * floor (a / b)\<close>.\<close>

definition pmod :: "rat \<Rightarrow> rat \<Rightarrow> rat" where
  "pmod a b = a - b * of_int \<lfloor>a / b\<rfloor>"

text \<open>The position of the centre line inside the wheel, before wrapping.\<close>

definition centrePos :: "revision \<Rightarrow> nat \<Rightarrow> rat \<Rightarrow> rat" where
  "centrePos v ch offset =
     (case v of V1 \<Rightarrow> wheelHeight ch / 2 + offset | V2 \<Rightarrow> wheelHeight ch / 2 - offset)"

text \<open>
  The number of pairs of consecutive entries of a list that differ: on the list
  of the centre-line indices of the frames of a spin, the number of changes of
  the index from one frame to the next.
\<close>

fun changes :: "'a list \<Rightarrow> nat" where
  "changes (x # y # zs) = (if x \<noteq> y then 1 else 0) + changes (y # zs)"
| "changes _ = 0"

text \<open>The same count with the comparison \<^verbatim>\<open>!==\<close> of the script.\<close>

fun crossings :: "jsval list \<Rightarrow> nat" where
  "crossings (x # y # zs) = (if js_neq y x then 1 else 0) + crossings (y # zs)"
| "crossings _ = 0"

text \<open>The centre-line index that the frame at time \<open>now\<close> of the animation \<open>a\<close> computes.\<close>

definition frameIndex :: "revision \<Rightarrow> nat \<Rightarrow> animation \<Rightarrow> 'a list \<Rightarrow> rat \<Rightarrow> jsval" where
  "frameIndex v ch a items now = getIndexAtCentre v ch items (offsetAt a now)"

text \<open>The animation that \<open>spinWheel\<close> starts in state \<open>s\<close>.\<close>

definition spinAnimation :: "revision \<Rightarrow> nat \<Rightarrow> rat \<Rightarrow> rat \<Rightarrow> state \<Rightarrow> animation" where
  "spinAnimation v ch r t s = last (pending (spinWheel v ch r t s))"

text \<open>
  A page to try things on: the wheel generated from \<open>A\<close>, \<open>B\<close>, \<open>C\<close>, in this order
  after the shuffle, with nothing spun yet.
\<close>

definition demo :: state where
  "demo = initial\<lparr>currentItems := [''A'', ''B'', ''C''], originalItems := [''A'', ''B'', ''C'']\<rparr>"

text \<open>The events that are not a click on the generate button.\<close>

fun notGenerate :: "event \<Rightarrow> bool" where
  "notGenerate (Generate rnd input) = False"
| "notGenerate _ = True"

text \<open>The events of a page on which only the spin button is used.\<close>

fun spinOrFrame :: "event \<Rightarrow> bool" where
  "spinOrFrame (Spin r now) = True"
| "spinOrFrame (Frame now) = True"
| "spinOrFrame _ = False"

text \<open>
  At most one animation is in flight, and \<open>isSpinning\<close> tells whether one is.
\<close>

definition oneFlight :: "state \<Rightarrow> bool" where
  "oneFlight s = (if isSpinning s then length (pending s) = 1 else pending s = [])"

section \<open>Properties of the geometry\<close>

subsection \<open>Remainders\<close>

lemma pmod_bounds: "0 < b \<Longrightarrow> 0 \<le> pmod a b \<and> pmod a b < b"
proof -
  assume b: "0 < b"
  have 1: "of_int \<lfloor>a / b\<rfloor> \<le> a / b" by simp
  have 2: "a / b < of_int \<lfloor>a / b\<rfloor> + 1" by linarith
  have 3: "b * (a / b) = a" using b by simp
  have "b * of_int \<lfloor>a / b\<rfloor> \<le> b * (a / b)" using b 1 by (intro mult_left_mono) simp_all
  moreover have "b * (a / b) < b * (of_int \<lfloor>a / b\<rfloor> + 1)"
    using b 2 by (intro mult_strict_left_mono) simp_all
  ultimately show ?thesis unfolding 3 by (simp add: pmod_def algebra_simps)
qed

lemma pmod_shift: "0 < b \<Longrightarrow> pmod (a + of_int k * b) b = pmod a b"
proof -
  assume b: "0 < b"
  then have "(a + of_int k * b) / b = a / b + of_int k" by (simp add: field_simps)
  then show ?thesis by (simp add: pmod_def algebra_simps)
qed

lemma pmod_id: "0 \<le> a \<Longrightarrow> a < b \<Longrightarrow> pmod a b = a"
proof -
  assume a: "0 \<le> a" "a < b"
  then have "\<lfloor>a / b\<rfloor> = 0" by (simp add: floor_eq_iff)
  then show ?thesis by (simp add: pmod_def)
qed

lemma js_rem_nonneg: "0 \<le> a \<Longrightarrow> 0 < b \<Longrightarrow> js_rem a b = pmod a b"
  by (simp add: js_rem_def pmod_def js_trunc_def)

lemma js_rem_neg: "a < 0 \<Longrightarrow> 0 < b \<Longrightarrow>
  js_rem a b = (if pmod a b = 0 then 0 else pmod a b - b)"
proof -
  assume a: "a < 0" and b: "0 < b"
  then have neg: "a / b < 0" by (simp add: divide_neg_pos)
  show ?thesis
  proof (cases "of_int \<lfloor>a / b\<rfloor> = a / b")
    case True
    then have "\<lceil>a / b\<rceil> = \<lfloor>a / b\<rfloor>" by (metis ceiling_of_int)
    moreover have "pmod a b = 0"
    proof -
      have "b * of_int \<lfloor>a / b\<rfloor> = b * (a / b)" by (simp only: True)
      also have "\<dots> = a" using b by simp
      finally show ?thesis by (simp add: pmod_def)
    qed
    ultimately show ?thesis using neg by (simp add: js_rem_def js_trunc_def pmod_def)
  next
    case False
    then have c: "\<lceil>a / b\<rceil> = \<lfloor>a / b\<rfloor> + 1" by (simp add: ceiling_altdef)
    from False b have "pmod a b \<noteq> 0" by (auto simp add: pmod_def field_simps)
    then show ?thesis using neg c by (simp add: js_rem_def js_trunc_def pmod_def algebra_simps)
  qed
qed

lemma js_rem_norm: "0 < b \<Longrightarrow> js_rem (js_rem a b + b) b = pmod a b"
proof -
  assume b: "0 < b"
  note pb = pmod_bounds [OF b, of a]
  show ?thesis
  proof (cases "0 \<le> a")
    case True
    then have "js_rem a b + b = pmod a b + of_int 1 * b" using b by (simp add: js_rem_nonneg)
    moreover have "0 \<le> pmod a b + of_int 1 * b" using pb b by simp
    ultimately have "js_rem (js_rem a b + b) b = pmod (pmod a b + of_int 1 * b) b"
      using b by (simp only: js_rem_nonneg)
    also have "\<dots> = pmod (pmod a b) b" using b by (rule pmod_shift)
    also have "\<dots> = pmod a b" using pb by (simp add: pmod_id)
    finally show ?thesis .
  next
    case False
    then have a: "a < 0" by simp
    show ?thesis
    proof (cases "pmod a b = 0")
      case True
      then have "js_rem a b + b = b" using a b by (simp add: js_rem_neg)
      then show ?thesis using True b by (simp add: js_rem_def js_trunc_def)
    next
      case False
      then have e: "js_rem a b + b = pmod a b" using a b by (simp add: js_rem_neg)
      have "js_rem (pmod a b) b = pmod (pmod a b) b" using pb b by (simp add: js_rem_nonneg)
      then show ?thesis using e pb by (simp add: pmod_id)
    qed
  qed
qed


lemma js_rem_int_nonneg: "0 \<le> a \<Longrightarrow> 0 < b \<Longrightarrow> js_rem_int a b = a mod b"
proof -
  assume a: "0 \<le> a" and b: "0 < b"
  then have q: "0 \<le> (of_int a :: rat) / of_int b" by simp
  have "js_rem (of_int a) (of_int b) = of_int a - of_int b * of_int (a div b)"
    using q by (simp add: js_rem_def js_trunc_def floor_divide_of_int_eq)
  also have "\<dots> = of_int (a - b * (a div b))" by simp
  also have "a - b * (a div b) = a mod b" by (simp add: minus_mult_div_eq_mod)
  finally show ?thesis by (simp add: js_rem_int_def)
qed

lemma segment_floor_range:
  fixes W r :: rat
  assumes "0 < W" "0 < n" "0 \<le> r" "r < W"
  shows "0 \<le> \<lfloor>r / (W / of_nat n)\<rfloor> \<and> \<lfloor>r / (W / of_nat n)\<rfloor> < int n"
proof -
  have e: "r / (W / of_nat n) = r * of_nat n / W" by simp
  have "0 \<le> r * of_nat n / W" using assms by simp
  moreover have "r * of_nat n / W < of_nat n"
    using assms by (simp add: pos_divide_less_eq mult.commute)
  ultimately show ?thesis unfolding e by (simp add: floor_less_iff)
qed

lemma centre_offset: "of_nat ch / 2 - (of_nat ch - wheelHeight ch) / 2 = wheelHeight ch / (2::rat)"
  by (simp add: field_simps)

lemma wheelHeight_pos: "0 < ch \<Longrightarrow> 0 < wheelHeight ch"
  by (simp add: wheelHeight_def)

lemma getIndexAtCentre_V2:
  assumes ch: "0 < ch" and ne: "items \<noteq> []"
  shows "getIndexAtCentre V2 ch items offset =
    Num \<lfloor>pmod (centrePos V2 ch offset) (wheelHeight ch) / (wheelHeight ch / of_nat (length items))\<rfloor>"
proof -
  let ?W = "wheelHeight ch" and ?n = "length items"
  let ?r = "pmod (?W / 2 - offset) ?W"
  have W: "0 < ?W" using ch by (rule wheelHeight_pos)
  have n: "0 < ?n" using ne by simp
  have rng: "0 \<le> \<lfloor>?r / (?W / of_nat ?n)\<rfloor> \<and> \<lfloor>?r / (?W / of_nat ?n)\<rfloor> < int ?n"
    using W n pmod_bounds [OF W] by (intro segment_floor_range) simp_all
  then have "js_rem_int \<lfloor>?r / (?W / of_nat ?n)\<rfloor> (int ?n) = \<lfloor>?r / (?W / of_nat ?n)\<rfloor>"
    using n by (simp add: js_rem_int_nonneg)
  then show ?thesis
    using ch ne W
    by (simp add: getIndexAtCentre_def centrePos_def Let_def centre_offset js_rem_norm)
qed

lemma getIndexAtCentre_V1:
  assumes ch: "0 < ch" and ne: "items \<noteq> []"
  shows "getIndexAtCentre V1 ch items offset =
    Num \<lfloor>pmod (centrePos V1 ch offset) (wheelHeight ch) / (wheelHeight ch / of_nat (length items))\<rfloor>"
proof -
  let ?W = "wheelHeight ch" and ?n = "length items"
  let ?p = "?W / 2 + offset"
  let ?r = "pmod ?p ?W"
  let ?s = "?W / of_nat ?n"
  have W: "0 < ?W" using ch by (rule wheelHeight_pos)
  have n: "0 < ?n" using ne by simp
  have s: "0 < ?s" using W n by simp
  have rng: "0 \<le> \<lfloor>?r / ?s\<rfloor> \<and> \<lfloor>?r / ?s\<rfloor> < int ?n"
    using W n pmod_bounds [OF W] by (intro segment_floor_range) simp_all
  have "js_rem_int (\<lfloor>js_rem ?p ?W / ?s\<rfloor> + int ?n) (int ?n) = \<lfloor>?r / ?s\<rfloor>"
  proof (cases "0 \<le> ?p")
    case True
    then have "js_rem ?p ?W = ?r" using W by (simp add: js_rem_nonneg)
    then show ?thesis using rng n by (simp add: js_rem_int_nonneg)
  next
    case False
    then have neg: "?p < 0" by simp
    show ?thesis
    proof (cases "?r = 0")
      case True
      then have "js_rem ?p ?W = 0" using neg W by (simp add: js_rem_neg)
      then show ?thesis using True n by (simp add: js_rem_int_nonneg)
    next
      case False
      then have "js_rem ?p ?W = ?r - ?W" using neg W by (simp add: js_rem_neg)
      moreover have "(?r - ?W) / ?s = ?r / ?s - of_int (int ?n)"
        using W n by (simp add: field_simps)
      ultimately have "\<lfloor>js_rem ?p ?W / ?s\<rfloor> = \<lfloor>?r / ?s\<rfloor> - int ?n"
        by (simp only: floor_diff_of_int)
      then show ?thesis using rng n by (simp add: js_rem_int_nonneg)
    qed
  qed
  then show ?thesis
    using ch ne by (simp add: getIndexAtCentre_def centrePos_def Let_def centre_offset)
qed

lemma getIndexAtCentre_closed:
  assumes "0 < ch" "items \<noteq> []"
  shows "getIndexAtCentre v ch items offset =
    Num \<lfloor>pmod (centrePos v ch offset) (wheelHeight ch) / (wheelHeight ch / of_nat (length items))\<rfloor>"
  using assms by (cases v) (simp_all add: getIndexAtCentre_V1 getIndexAtCentre_V2)


lemma centrePos_shift:
  "centrePos v ch (offset + of_int k * wheelHeight ch) =
   centrePos v ch offset + of_int (case v of V1 \<Rightarrow> k | V2 \<Rightarrow> - k) * wheelHeight ch"
  by (cases v) (simp_all add: centrePos_def algebra_simps)

lemma getIndexAtCentre_shift:
  assumes "0 < ch" "items \<noteq> []"
  shows "getIndexAtCentre v ch items (offset + of_int k * wheelHeight ch) =
         getIndexAtCentre v ch items offset"
proof -
  have W: "0 < wheelHeight ch" using assms(1) by (rule wheelHeight_pos)
  show ?thesis
    unfolding getIndexAtCentre_closed [OF assms] centrePos_shift pmod_shift [OF W] ..
qed

lemma centrePos_finalOffset:
  "centrePos v ch (spin_finalOffset v ch n w) =
   of_int w * (wheelHeight ch / of_nat n) + wheelHeight ch / of_nat n / 2"
  by (cases v) (simp_all add: centrePos_def spin_finalOffset_def Let_def field_simps)

lemma segment_centre_quotient:
  fixes s :: rat
  assumes "0 < s"
  shows "(of_int w * s + s / 2) / s = of_int w + 1 / 2"
  using assms by (simp add: field_simps)

lemma segment_centre_nonneg:
  fixes s :: rat
  assumes "0 < s" "0 \<le> w"
  shows "0 \<le> of_int w * s + s / 2"
  using assms by (intro add_nonneg_nonneg mult_nonneg_nonneg) simp_all

lemma getIndexAtCentre_finalOffset:
  assumes ch: "0 < ch" and ne: "items \<noteq> []" and w: "0 \<le> w" "w < int (length items)"
  shows "getIndexAtCentre v ch items (spin_finalOffset v ch (length items) w) = Num w"
proof -
  let ?W = "wheelHeight ch" and ?n = "length items"
  let ?s = "?W / of_nat ?n"
  let ?p = "of_int w * ?s + ?s / 2"
  have W: "0 < ?W" using ch by (rule wheelHeight_pos)
  have n: "0 < ?n" using ne by simp
  have s: "0 < ?s" using W n by simp
  have q: "?p / ?s = of_int w + 1 / 2" using s by (rule segment_centre_quotient)
  have p0: "0 \<le> ?p" using s w(1) by (rule segment_centre_nonneg)
  have "of_int w + 1 / 2 < (of_nat ?n :: rat)"
  proof -
    from w have "w + 1 \<le> int ?n" by simp
    then have "(of_int (w + 1) :: rat) \<le> of_int (int ?n)" by (simp only: of_int_le_iff)
    then show ?thesis by simp
  qed
  then have "?p / ?s < of_nat ?n" by (simp only: q)
  then have "?p < of_nat ?n * ?s" using s by (simp only: pos_divide_less_eq)
  then have pW: "?p < ?W" using n by simp
  have "\<lfloor>pmod ?p ?W / ?s\<rfloor> = \<lfloor>?p / ?s\<rfloor>" using p0 pW by (simp only: pmod_id)
  also have "\<dots> = w" unfolding q by (simp add: floor_eq_iff)
  finally show ?thesis
    unfolding getIndexAtCentre_closed [OF ch ne] centrePos_finalOffset by simp
qed

lemma normalizeOffset_pmod: "0 < wh \<Longrightarrow> normalizeOffset fo wh = pmod fo wh"
  by (simp add: normalizeOffset_def js_rem_norm)

lemma getIndexAtCentre_normalized:
  assumes ch: "0 < ch" and ne: "items \<noteq> []"
  shows "getIndexAtCentre v ch items (normalizeOffset fo (wheelHeight ch)) =
         getIndexAtCentre v ch items fo"
proof -
  let ?W = "wheelHeight ch"
  have W: "0 < ?W" using ch by (rule wheelHeight_pos)
  have "normalizeOffset fo ?W = fo + of_int (- \<lfloor>fo / ?W\<rfloor>) * ?W"
    using W by (simp add: normalizeOffset_pmod pmod_def)
  then show ?thesis by (simp only: getIndexAtCentre_shift [OF ch ne])
qed

lemma getIndexAtCentre_range:
  assumes "0 < ch" "items \<noteq> []"
  shows "\<exists>k. getIndexAtCentre v ch items offset = Num k \<and> 0 \<le> k \<and> k < int (length items)"
proof -
  let ?W = "wheelHeight ch"
  have W: "0 < ?W" using assms(1) by (rule wheelHeight_pos)
  have n: "0 < length items" using assms(2) by simp
  have "0 \<le> \<lfloor>pmod (centrePos v ch offset) ?W / (?W / of_nat (length items))\<rfloor> \<and>
        \<lfloor>pmod (centrePos v ch offset) ?W / (?W / of_nat (length items))\<rfloor> < int (length items)"
    using W n pmod_bounds [OF W] by (intro segment_floor_range) simp_all
  then show ?thesis unfolding getIndexAtCentre_closed [OF assms] by blast
qed

section \<open>Properties of the spin state machine\<close>

subsection \<open>Starting a spin\<close>

lemma spinWheel_guard: "isSpinning s \<or> currentItems s = [] \<Longrightarrow> spinWheel v ch r t s = s"
  by (auto simp add: spinWheel_def)

lemma spinWheel_start:
  assumes "\<not> isSpinning s" "currentItems s \<noteq> []"
  shows "spinWheel v ch r t s =
    s\<lparr>selectedIndex := Num \<lfloor>r * of_nat (length (currentItems s))\<rfloor>, isSpinning := True,
      pending := pending s @
        [\<lparr>startTime = t, startOffset = currentOffset s,
          distance = spin_finalOffset v ch (length (currentItems s))
              \<lfloor>r * of_nat (length (currentItems s))\<rfloor> + 3 * wheelHeight ch - currentOffset s,
          finalOffset = spin_finalOffset v ch (length (currentItems s))
              \<lfloor>r * of_nat (length (currentItems s))\<rfloor>\<rparr>]\<rparr>"
  using assms by (simp add: spinWheel_def Let_def)

lemma spinWheel_idem: "spinWheel v ch r' t' (spinWheel v ch r t s) = spinWheel v ch r t s"
proof (cases "isSpinning s \<or> currentItems s = []")
  case True
  then show ?thesis by (simp only: spinWheel_guard)
next
  case False
  then have "isSpinning (spinWheel v ch r t s)" by (simp add: spinWheel_start)
  then show ?thesis by (intro spinWheel_guard disjI1)
qed

lemma random_index_range:
  fixes r :: rat
  assumes "0 \<le> r" "r < 1" "0 < n"
  shows "0 \<le> \<lfloor>r * of_nat n\<rfloor> \<and> \<lfloor>r * of_nat n\<rfloor> < int n"
proof -
  have "0 \<le> r * of_nat n" using assms by simp
  moreover have "r * of_nat n < 1 * of_nat n" using assms by (intro mult_strict_right_mono) simp_all
  ultimately show ?thesis by (simp add: floor_less_iff)
qed

subsection \<open>Frames\<close>

lemma progress_less: "progressAt a now < 1 \<longleftrightarrow> now - startTime a < duration"
  by (simp add: progressAt_def Let_def duration_def min_def)

lemma animate_progress:
  assumes "progressAt a now < 1" "isSpinning s"
  shows "animate v ch a now s =
    s\<lparr>currentOffset := offsetAt a now,
      lastTickIndex := frameIndex v ch a (currentItems s) now,
      tickCount := tickCount s +
        (if js_neq (frameIndex v ch a (currentItems s) now) (lastTickIndex s) then 1 else 0),
      pending := pending s @ [a]\<rparr>"
proof (cases "js_neq (frameIndex v ch a (currentItems s) now) (lastTickIndex s)")
  case True
  then show ?thesis using assms by (simp add: animate_def Let_def frameIndex_def)
next
  case False
  then have "frameIndex v ch a (currentItems s) now = lastTickIndex s" by (simp add: js_neq_def)
  then show ?thesis using assms False by (cases s) (simp add: animate_def Let_def frameIndex_def)
qed

lemma element_Num: "0 \<le> w \<Longrightarrow> w < int (length xs) \<Longrightarrow> element xs (Num w) = Some (xs ! nat w)"
  by (simp add: element_def)

lemma splice1_Num:
  "0 \<le> w \<Longrightarrow> w < int (length xs) \<Longrightarrow> splice1 (Num w) xs = take (nat w) xs @ drop (Suc (nat w)) xs"
  by (simp add: splice1_def Let_def min_def)

lemma animate_final:
  assumes p: "\<not> progressAt a now < 1" and sp: "isSpinning s" and ch: "0 < ch"
    and ne: "currentItems s \<noteq> []"
    and fo: "finalOffset a = spin_finalOffset v ch (length (currentItems s)) w"
    and w: "0 \<le> w" "w < int (length (currentItems s))"
  shows "animate v ch a now s =
    s\<lparr>currentOffset := 0, isSpinning := False, lastTickIndex := Num (- 1),
      tickCount := tickCount s +
        (if js_neq (frameIndex v ch a (currentItems s) now) (lastTickIndex s) then 1 else 0),
      selectedIndex := Num w,
      shown := shown s @ [Some (currentItems s ! nat w)],
      currentItems := take (nat w) (currentItems s) @ drop (Suc (nat w)) (currentItems s)\<rparr>"
proof -
  have idx: "getIndexAtCentre v ch (currentItems s)
      (normalizeOffset (finalOffset a) (wheelHeight ch)) = Num w"
    unfolding getIndexAtCentre_normalized [OF ch ne] fo
    using ch ne w by (rule getIndexAtCentre_finalOffset)
  show ?thesis
    using p sp idx element_Num [OF w] splice1_Num [OF w]
    by (cases s) (simp add: animate_def Let_def frameIndex_def)
qed

lemma frame_single: "pending s = [a] \<Longrightarrow> frame v ch now s = animate v ch a now (s\<lparr>pending := []\<rparr>)"
  by (simp add: frame_def)

lemma frame_none: "pending s = [] \<Longrightarrow> frame v ch now s = s"
  by (simp add: frame_def)

lemma run_Nil: "run v ch [] s = s"
  by (simp add: run_def)

lemma run_Cons: "run v ch (e # es) s = run v ch es (step v ch e s)"
  by (simp add: run_def)

lemma run_append: "run v ch (es @ fs) s = run v ch fs (run v ch es s)"
  by (simp add: run_def)

lemma frames_progress:
  assumes "pending s = [a]" "isSpinning s" "list_all (\<lambda>u. progressAt a u < 1) ts"
  shows "run v ch (map Frame ts) s =
    s\<lparr>currentOffset := last (currentOffset s # map (offsetAt a) ts),
      lastTickIndex := last (lastTickIndex s # map (frameIndex v ch a (currentItems s)) ts),
      tickCount := tickCount s +
        crossings (lastTickIndex s # map (frameIndex v ch a (currentItems s)) ts)\<rparr>"
  using assms
proof (induction ts arbitrary: s)
  case Nil
  then show ?case by (simp add: run_Nil)
next
  case (Cons u ts)
  let ?s1 = "frame v ch u s"
  have p: "progressAt a u < 1" and rest: "list_all (\<lambda>u. progressAt a u < 1) ts"
    using Cons.prems(3) by simp_all
  have s1: "?s1 = s\<lparr>currentOffset := offsetAt a u,
      lastTickIndex := frameIndex v ch a (currentItems s) u,
      tickCount := tickCount s +
        (if js_neq (frameIndex v ch a (currentItems s) u) (lastTickIndex s) then 1 else 0)\<rparr>"
    using Cons.prems(1,2) p by (cases s) (simp add: frame_single animate_progress)
  have "run v ch (map Frame (u # ts)) s = run v ch (map Frame ts) ?s1"
    by (simp add: run_Cons)
  also have "\<dots> = ?s1\<lparr>currentOffset := last (currentOffset ?s1 # map (offsetAt a) ts),
      lastTickIndex := last (lastTickIndex ?s1 # map (frameIndex v ch a (currentItems ?s1)) ts),
      tickCount := tickCount ?s1 +
        crossings (lastTickIndex ?s1 # map (frameIndex v ch a (currentItems ?s1)) ts)\<rparr>"
    using Cons.prems(1,2) rest by (intro Cons.IH) (simp_all add: s1)
  also have "\<dots> = s\<lparr>currentOffset := last (currentOffset s # map (offsetAt a) (u # ts)),
      lastTickIndex := last (lastTickIndex s # map (frameIndex v ch a (currentItems s)) (u # ts)),
      tickCount := tickCount s +
        crossings (lastTickIndex s # map (frameIndex v ch a (currentItems s)) (u # ts))\<rparr>"
    unfolding s1 by (cases s) simp
  finally show ?case .
qed

subsection \<open>Counting ticks\<close>

lemma crossings_snoc:
  "xs \<noteq> [] \<Longrightarrow> crossings (xs @ [y]) = crossings xs + (if js_neq y (last xs) then 1 else 0)"
  by (induction xs rule: crossings.induct) simp_all

lemma crossings_changes:
  "\<forall>i\<in>set xs. \<exists>k. i = Num k \<Longrightarrow> crossings xs = changes xs"
  by (induction xs rule: crossings.induct) (auto simp add: js_neq_def)

lemma crossings_sentinel:
  assumes "xs \<noteq> []" "\<forall>i\<in>set xs. \<exists>k. i = Num k \<and> 0 \<le> k"
  shows "crossings (Num (- 1) # xs) = 1 + changes xs"
proof -
  from assms(1) obtain i ys where xs: "xs = i # ys" by (cases xs) auto
  from assms(2) xs obtain k where k: "i = Num k" "0 \<le> k" by auto
  have "crossings xs = changes xs" using assms(2) by (intro crossings_changes) blast
  then show ?thesis using xs k by (simp add: js_neq_def)
qed

subsection \<open>A completed spin\<close>

lemma spinWheel_pending:
  assumes "\<not> isSpinning s" "currentItems s \<noteq> []"
  shows "pending (spinWheel v ch r t s) = pending s @ [spinAnimation v ch r t s]"
    and "startTime (spinAnimation v ch r t s) = t"
    and "finalOffset (spinAnimation v ch r t s) =
      spin_finalOffset v ch (length (currentItems s)) \<lfloor>r * of_nat (length (currentItems s))\<rfloor>"
  using assms by (simp_all add: spinAnimation_def spinWheel_start)

lemma completed_spin:
  assumes ch: "0 < ch" and ns: "\<not> isSpinning s" and pe: "pending s = []"
    and ne: "currentItems s \<noteq> []" and valid: "validSpin (r, t, ts, now)"
  shows "run v ch (spinEvents (r, t, ts, now)) s =
    s\<lparr>currentOffset := 0, lastTickIndex := Num (- 1),
      tickCount := tickCount s +
        crossings (lastTickIndex s #
          map (frameIndex v ch (spinAnimation v ch r t s) (currentItems s)) (ts @ [now])),
      selectedIndex := Num \<lfloor>r * of_nat (length (currentItems s))\<rfloor>,
      shown := shown s @ [Some (currentItems s ! nat \<lfloor>r * of_nat (length (currentItems s))\<rfloor>)],
      currentItems :=
        take (nat \<lfloor>r * of_nat (length (currentItems s))\<rfloor>) (currentItems s) @
        drop (Suc (nat \<lfloor>r * of_nat (length (currentItems s))\<rfloor>)) (currentItems s)\<rparr>"
proof -
  let ?a = "spinAnimation v ch r t s"
  let ?w = "\<lfloor>r * of_nat (length (currentItems s))\<rfloor>"
  let ?idx = "frameIndex v ch ?a (currentItems s)"
  let ?s1 = "spinWheel v ch r t s"
  let ?s2 = "run v ch (map Frame ts) ?s1"
  have r: "0 \<le> r" "r < 1" and early: "list_all (\<lambda>u. u - t < duration) ts"
    and late: "duration \<le> now - t"
    using valid by (simp_all add: validSpin_def)
  have w: "0 \<le> ?w" "?w < int (length (currentItems s))"
    using random_index_range [OF r, of "length (currentItems s)"] ne by simp_all
  note a = spinWheel_pending [OF ns ne, of v ch r t]
  have s1: "?s1 = s\<lparr>selectedIndex := Num ?w, isSpinning := True, pending := [?a]\<rparr>"
    using a(1) pe ns ne by (cases s) (simp add: spinWheel_start)
  have prog: "list_all (\<lambda>u. progressAt ?a u < 1) ts"
    using early by (simp add: progress_less a(2))
  have fin: "\<not> progressAt ?a now < 1" using late by (simp add: progress_less a(2))
  have s2: "?s2 = ?s1\<lparr>currentOffset := last (currentOffset ?s1 # map (offsetAt ?a) ts),
      lastTickIndex := last (lastTickIndex ?s1 # map (frameIndex v ch ?a (currentItems ?s1)) ts),
      tickCount := tickCount ?s1 +
        crossings (lastTickIndex ?s1 # map (frameIndex v ch ?a (currentItems ?s1)) ts)\<rparr>"
    using prog by (intro frames_progress) (simp_all add: s1)
  have s2': "?s2 = s\<lparr>selectedIndex := Num ?w, isSpinning := True, pending := [?a],
      currentOffset := last (currentOffset s # map (offsetAt ?a) ts),
      lastTickIndex := last (lastTickIndex s # map ?idx ts),
      tickCount := tickCount s + crossings (lastTickIndex s # map ?idx ts)\<rparr>"
    unfolding s2 by (simp add: s1)
  let ?s2p = "?s2\<lparr>pending := []\<rparr>"
  have fields: "isSpinning ?s2p" "currentItems ?s2p = currentItems s"
    "lastTickIndex ?s2p = last (lastTickIndex s # map ?idx ts)"
    "tickCount ?s2p = tickCount s + crossings (lastTickIndex s # map ?idx ts)"
    "shown ?s2p = shown s" "pending ?s2 = [?a]"
    by (simp_all add: s2')
  have "run v ch (spinEvents (r, t, ts, now)) s = frame v ch now ?s2"
    by (simp add: spinEvents_def run_Cons run_append run_Nil)
  also have "\<dots> = animate v ch ?a now ?s2p"
    using fields(6) by (rule frame_single)
  also have "\<dots> = ?s2p\<lparr>currentOffset := 0, isSpinning := False, lastTickIndex := Num (- 1),
      tickCount := tickCount ?s2p +
        (if js_neq (frameIndex v ch ?a (currentItems ?s2p) now) (lastTickIndex ?s2p) then 1 else 0),
      selectedIndex := Num ?w,
      shown := shown ?s2p @ [Some (currentItems ?s2p ! nat ?w)],
      currentItems := take (nat ?w) (currentItems ?s2p) @ drop (Suc (nat ?w)) (currentItems ?s2p)\<rparr>"
    using fin fields(1) ch ne a(3) w
    by (intro animate_final) (simp_all only: fields(2) not_False_eq_True)
  also have "\<dots> = s\<lparr>currentOffset := 0, lastTickIndex := Num (- 1),
      tickCount := tickCount s + crossings (lastTickIndex s # map ?idx (ts @ [now])),
      selectedIndex := Num ?w,
      shown := shown s @ [Some (currentItems s ! nat ?w)],
      currentItems := take (nat ?w) (currentItems s) @ drop (Suc (nat ?w)) (currentItems s)\<rparr>"
  proof -
    have c: "crossings (lastTickIndex s # map ?idx (ts @ [now])) =
      crossings (lastTickIndex s # map ?idx ts) +
        (if js_neq (?idx now) (last (lastTickIndex s # map ?idx ts)) then 1 else 0)"
      using crossings_snoc [of "lastTickIndex s # map ?idx ts" "?idx now"] by simp
    show ?thesis
      unfolding fields(2,3,4,5) c unfolding s2'
      using ns pe by (intro state.equality) simp_all
  qed
  finally show ?thesis .
qed

subsection \<open>Auxiliary facts\<close>


lemma demo_idle: "idle demo"
  by (simp add: idle_def demo_def initial_def)

lemma demo_items: "currentItems demo = [''A'', ''B'', ''C'']"
  by (simp add: demo_def initial_def)

lemma demo_spin_valid: "validSpin (0, 0, [1000, 2000], 4000)"
  by (simp add: validSpin_def duration_def)

lemma frameIndex_range:
  assumes "0 < ch" "items \<noteq> []"
  shows "\<exists>k. frameIndex v ch a items now = Num k \<and> 0 \<le> k"
  using getIndexAtCentre_range [OF assms, of v "offsetAt a now"]
  by (auto simp add: frameIndex_def)

lemma single_item_index: "0 < ch \<Longrightarrow> frameIndex v ch a [x] now = Num 0"
  using getIndexAtCentre_range [of ch "[x]" v "offsetAt a now"]
  by (auto simp add: frameIndex_def)

subsection \<open>Removal of the winner\<close>

lemma mset_remove_nth:
  assumes "i < length xs"
  shows "add_mset (xs ! i) (mset (take i xs @ drop (Suc i) xs)) = mset xs"
proof -
  have "mset xs = mset (take i xs @ xs ! i # drop (Suc i) xs)"
    using assms by (simp only: id_take_nth_drop [symmetric])
  then show ?thesis by simp
qed

lemma length_remove_nth:
  assumes "i < length xs"
  shows "length (take i xs @ drop (Suc i) xs) = length xs - 1"
  using assms by simp

lemma random_index_nat:
  fixes r :: rat
  assumes "0 \<le> r" "r < 1" "0 < n"
  shows "nat \<lfloor>r * of_nat n\<rfloor> < n"
proof -
  have "0 \<le> \<lfloor>r * of_nat n\<rfloor>" "\<lfloor>r * of_nat n\<rfloor> < int n"
    using random_index_range [OF assms] by blast+
  then show ?thesis by (simp only: nat_less_iff)
qed

lemma spins_exhaust:
  assumes ch: "0 < ch"
  shows "\<not> isSpinning s \<Longrightarrow> pending s = [] \<Longrightarrow> list_all validSpin sps \<Longrightarrow>
    length sps = length (currentItems s) \<Longrightarrow>
    \<exists>ws. currentItems (run v ch (concat (map spinEvents sps)) s) = []
      \<and> shown (run v ch (concat (map spinEvents sps)) s) = shown s @ map Some ws
      \<and> mset ws = mset (currentItems s)"
proof (induction sps arbitrary: s)
  case Nil
  then show ?case by (simp add: run_Nil)
next
  case (Cons sp sps)
  obtain r t ts now where sp: "sp = (r, t, ts, now)" by (cases sp) auto
  let ?items = "currentItems s"
  let ?w = "\<lfloor>r * of_nat (length ?items)\<rfloor>"
  let ?s1 = "run v ch (spinEvents (r, t, ts, now)) s"
  have ne: "?items \<noteq> []" using Cons.prems(4) by auto
  have valid: "validSpin (r, t, ts, now)" and rest: "list_all validSpin sps"
    using Cons.prems(3) sp by simp_all
  have r: "0 \<le> r" "r < 1" using valid by (simp_all add: validSpin_def)
  have wn: "nat ?w < length ?items"
    using ne by (intro random_index_nat [OF r]) simp
  note cs = completed_spin [OF ch Cons.prems(1,2) ne valid, of v]
  have f: "\<not> isSpinning ?s1" "pending ?s1 = []"
    "currentItems ?s1 = take (nat ?w) ?items @ drop (Suc (nat ?w)) ?items"
    "shown ?s1 = shown s @ [Some (?items ! nat ?w)]"
    unfolding cs using Cons.prems(1,2) by simp_all
  have len: "length sps = length (currentItems ?s1)"
    unfolding f(3) length_remove_nth [OF wn] using Cons.prems(4) by simp
  from Cons.IH [OF f(1,2) rest len] obtain ws where
    ws: "currentItems (run v ch (concat (map spinEvents sps)) ?s1) = []"
      "shown (run v ch (concat (map spinEvents sps)) ?s1) = shown ?s1 @ map Some ws"
      "mset ws = mset (currentItems ?s1)"
    by blast
  have run: "run v ch (concat (map spinEvents (sp # sps))) s =
      run v ch (concat (map spinEvents sps)) ?s1"
    by (simp add: sp run_append)
  have "mset (?items ! nat ?w # ws) = mset ?items"
    using ws(3) mset_remove_nth [OF wn] by (simp add: f(3))
  moreover have "shown (run v ch (concat (map spinEvents (sp # sps))) s) =
      shown s @ map Some (?items ! nat ?w # ws)"
    unfolding run ws(2) f(4) by simp
  moreover have "currentItems (run v ch (concat (map spinEvents (sp # sps))) s) = []"
    unfolding run by (rule ws(1))
  ultimately show ?case by blast
qed

subsection \<open>The original list\<close>

lemma animate_originalItems: "originalItems (animate v ch a now s) = originalItems s"
  by (simp add: animate_def Let_def)

lemma fold_animate_originalItems:
  "originalItems (fold (\<lambda>a. animate v ch a now) as s) = originalItems s"
  by (induction as arbitrary: s) (simp_all add: animate_originalItems)

lemma frame_originalItems: "originalItems (frame v ch now s) = originalItems s"
  by (simp add: frame_def fold_animate_originalItems)

lemma spinWheel_originalItems: "originalItems (spinWheel v ch r t s) = originalItems s"
  by (simp add: spinWheel_def Let_def)

lemma reset_originalItems: "originalItems (reset s) = originalItems s"
  by (simp add: reset_def)

lemma step_originalItems:
  "notGenerate e \<Longrightarrow> originalItems (step v ch e s) = originalItems s"
  by (cases e)
    (simp_all add: frame_originalItems spinWheel_originalItems reset_originalItems)

lemma run_originalItems:
  "list_all notGenerate es \<Longrightarrow> originalItems (run v ch es s) = originalItems s"
  by (induction es arbitrary: s) (simp_all add: run_Nil run_Cons step_originalItems)

lemma length_shuffleLoop: "length (shuffleLoop rnd i xs) = length xs"
  by (induction i arbitrary: xs) (simp_all add: Let_def)

lemma length_shuffleArray: "length (shuffleArray rnd xs) = length xs"
  by (simp add: shuffleArray_def length_shuffleLoop)

lemma generate_originalItems:
  "input \<noteq> [] \<Longrightarrow> originalItems (generate rnd input s) = shuffleArray rnd input"
  by (simp add: generate_def Let_def)

lemma generate_currentItems:
  "input \<noteq> [] \<Longrightarrow> currentItems (generate rnd input s) = shuffleArray rnd input"
  by (simp add: generate_def Let_def)

lemma reset_fields:
  assumes "originalItems s \<noteq> []"
  shows "currentItems (reset s) = originalItems s" "currentOffset (reset s) = 0"
    "\<not> isSpinning (reset s)"
  using assms by (simp_all add: reset_def)

lemma reset_noop: "originalItems s = [] \<Longrightarrow> reset s = s"
  by (simp add: reset_def)

subsection \<open>Animations in flight\<close>

lemma animate_done:
  "\<not> progressAt a now < 1 \<Longrightarrow>
    \<not> isSpinning (animate v ch a now s) \<and> pending (animate v ch a now s) = pending s"
  by (simp add: animate_def Let_def)

lemma animate_going:
  "progressAt a now < 1 \<Longrightarrow>
    isSpinning (animate v ch a now s) = isSpinning s
    \<and> pending (animate v ch a now s) = pending s @ [a]"
  by (simp add: animate_def Let_def)

lemma spinWheel_oneFlight: "oneFlight s \<Longrightarrow> oneFlight (spinWheel v ch r t s)"
  by (simp add: oneFlight_def spinWheel_def Let_def split: if_splits)

lemma frame_oneFlight:
  assumes "oneFlight s"
  shows "oneFlight (frame v ch now s)"
proof (cases "isSpinning s")
  case False
  then have "pending s = []" using assms by (simp add: oneFlight_def)
  then show ?thesis using assms by (simp add: frame_none)
next
  case True
  then have "length (pending s) = 1" using assms by (simp add: oneFlight_def)
  then obtain a where a: "pending s = [a]" by (cases "pending s") auto
  show ?thesis
  proof (cases "progressAt a now < 1")
    case prog: True
    show ?thesis
      unfolding frame_single [OF a] oneFlight_def
      using animate_going [OF prog, of v ch "s\<lparr>pending := []\<rparr>"] True by simp
  next
    case fin: False
    show ?thesis
      unfolding frame_single [OF a] oneFlight_def
      using animate_done [OF fin, of v ch "s\<lparr>pending := []\<rparr>"] by simp
  qed
qed

lemma single_flight_spin_frames:
  "oneFlight s \<Longrightarrow> list_all spinOrFrame es \<Longrightarrow> oneFlight (run v ch es s)"
proof (induction es arbitrary: s)
  case Nil
  then show ?case by (simp add: run_Nil)
next
  case (Cons e es)
  have "oneFlight (step v ch e s)"
    using Cons.prems by (cases e) (simp_all add: spinWheel_oneFlight frame_oneFlight)
  then show ?case using Cons.prems(2) by (simp add: run_Cons Cons.IH)
qed

lemma single_flight_bound: "oneFlight s \<Longrightarrow> length (pending s) \<le> 1"
  by (simp add: oneFlight_def split: if_splits)

subsection \<open>The state before the last frame\<close>



lemma every_index_is_chosen:
  assumes "0 \<le> w" "w < int n"
  shows "\<exists>r::rat. 0 \<le> r \<and> r < 1 \<and> \<lfloor>r * of_nat n\<rfloor> = w"
proof -
  have n: "(0::rat) < of_nat n" using assms by simp
  let ?r = "of_int w / of_nat n :: rat"
  have "0 \<le> ?r" using assms(1) by simp
  moreover have "?r < 1"
  proof -
    have "(of_int w :: rat) < of_int (int n)" using assms(2) by (simp only: of_int_less_iff)
    then show ?thesis using n by simp
  qed
  moreover have "?r * of_nat n = of_int w" using n by simp
  then have "\<lfloor>?r * of_nat n\<rfloor> = w" by simp
  ultimately show ?thesis by blast
qed

section \<open>The geometry model\<close>

text \<open>
  Claim C1 (determinism of settle). For a positive canvas height, a non-empty
  list and every winning index \<open>w\<close> with \<open>0 \<le> w < length items\<close>, the centre-line
  index at the final offset that \<open>spinWheel\<close> plans for \<open>w\<close> is \<open>w\<close>, in both
  revisions (each with its own sign of the offset).
\<close>

theorem settle_determinism:
  assumes "0 < ch" "items \<noteq> []" "0 \<le> w" "w < int (length items)"
  shows "getIndexAtCentre v ch items (spin_finalOffset v ch (length items) w) = Num w"
  using assms by (rule getIndexAtCentre_finalOffset)

theorem settle_determinism_witness:
  "getIndexAtCentre V1 500 [''A'', ''B'', ''C''] (spin_finalOffset V1 500 (length [''A'', ''B'', ''C'']) 1) = Num 1
   \<and> getIndexAtCentre V2 500 [''A'', ''B'', ''C''] (spin_finalOffset V2 500 (length [''A'', ''B'', ''C'']) 2) = Num 2"
  using settle_determinism [of 500 "[''A'', ''B'', ''C'']" 1 V1]
    settle_determinism [of 500 "[''A'', ''B'', ''C'']" 2 V2]
  by simp

text \<open>
  Claim C2 (wrap correctness). For a positive canvas height, a non-empty list and
  every offset, negative or many wheel heights large, \<open>getIndexAtCentre\<close> returns
  an integer \<open>k\<close> with \<open>0 \<le> k < length items\<close>.
\<close>

theorem wrap_correctness:
  assumes "0 < ch" "items \<noteq> []"
  shows "\<exists>k. getIndexAtCentre v ch items offset = Num k \<and> 0 \<le> k \<and> k < int (length items)"
  using assms by (rule getIndexAtCentre_range)

theorem wrap_correctness_witness:
  "\<exists>k. getIndexAtCentre V1 500 [''A'', ''B'', ''C''] (- 1234) = Num k \<and> 0 \<le> k
      \<and> k < int (length [''A'', ''B'', ''C''])"
  using wrap_correctness [of 500 "[''A'', ''B'', ''C'']" V1 "- 1234"] by simp

text \<open>
  Claim C10 (periodicity). For a positive canvas height, a non-empty list, every
  offset and every integer \<open>k\<close>, shifting the offset by \<open>k\<close> wheel heights does not
  change the centre-line index.
\<close>

theorem index_periodic:
  assumes "0 < ch" "items \<noteq> []"
  shows "getIndexAtCentre v ch items (offset + of_int k * wheelHeight ch) =
         getIndexAtCentre v ch items offset"
  using assms by (rule getIndexAtCentre_shift)

theorem index_periodic_witness:
  "getIndexAtCentre V2 500 [''A'', ''B'', ''C''] (70 + of_int (- 5) * wheelHeight 500) =
   getIndexAtCentre V2 500 [''A'', ''B'', ''C''] 70"
  using index_periodic [of 500 "[''A'', ''B'', ''C'']" V2 70 "- 5"] by simp

section \<open>The spin state machine\<close>



text \<open>
  Claim C4 (ticks of one spin), as amended. A spin is started on an idle page
  (\<open>lastTickIndex\<close> is \<open>-1\<close> there) and runs through its \<open>N\<close> frames, the last
  one included. The number of calls of \<open>playTickSound\<close> is one more than the
  number of pairs of consecutive frames on which the centre-line index differs:
  the first frame of every spin ticks, because its index differs from the
  value \<open>-1\<close> that \<open>lastTickIndex\<close> holds between spins, and after it a frame
  ticks exactly when its index differs from the index of the frame before.
\<close>

theorem tick_count:
  assumes "0 < ch" "idle s" "currentItems s \<noteq> []" "validSpin (r, t, ts, now)"
  shows "tickCount (run v ch (spinEvents (r, t, ts, now)) s) =
    tickCount s + 1 +
      changes (map (frameIndex v ch (spinAnimation v ch r t s) (currentItems s)) (ts @ [now]))"
proof -
  let ?idx = "frameIndex v ch (spinAnimation v ch r t s) (currentItems s)"
  have i: "\<not> isSpinning s" "pending s = []" "lastTickIndex s = Num (- 1)"
    using assms(2) by (simp_all add: idle_def)
  have ne: "map ?idx (ts @ [now]) \<noteq> []" by simp
  have rng: "\<forall>i\<in>set (map ?idx (ts @ [now])). \<exists>k. i = Num k \<and> 0 \<le> k"
    using frameIndex_range [OF assms(1,3)] by auto
  have "tickCount (run v ch (spinEvents (r, t, ts, now)) s) =
      tickCount s + crossings (Num (- 1) # map ?idx (ts @ [now]))"
    unfolding completed_spin [OF assms(1) i(1,2) assms(3,4)] by (simp add: i(3))
  then show ?thesis by (simp only: crossings_sentinel [OF ne rng])
qed

theorem tick_count_witness:
  "tickCount (run V1 500 (spinEvents (0, 0, [1000, 2000], 4000)) demo) =
    tickCount demo + 1 +
      changes (map (frameIndex V1 500 (spinAnimation V1 500 0 0 demo) (currentItems demo))
        ([1000, 2000] @ [4000]))"
proof -
  have h1: "0 < (500::nat)" by simp
  have h3: "currentItems demo \<noteq> []" by (simp add: demo_items)
  show ?thesis by (rule tick_count [OF h1 demo_idle h3 demo_spin_valid])
qed

theorem tick_count_counterexample:
  "tickCount (run V1 500 (spinEvents (0, 0, [1000, 2000], 4000))
      (initial\<lparr>currentItems := [''A'']\<rparr>)) = 1
   \<and> changes (map (frameIndex V1 500
        (spinAnimation V1 500 0 0 (initial\<lparr>currentItems := [''A'']\<rparr>)) [''A''])
        [1000, 2000, 4000]) = 0"
proof -
  let ?s = "initial\<lparr>currentItems := [''A'']\<rparr>"
  have h1: "0 < (500::nat)" by simp
  have h2: "\<not> isSpinning ?s" by (simp add: initial_def)
  have h3: "pending ?s = []" by (simp add: initial_def)
  have h4: "currentItems ?s \<noteq> []" by simp
  have items: "currentItems ?s = [''A'']" by simp
  have last: "lastTickIndex ?s = Num (- 1)" by (simp add: initial_def)
  have count: "tickCount ?s = 0" by (simp add: initial_def)
  have "tickCount (run V1 500 (spinEvents (0, 0, [1000, 2000], 4000)) ?s) =
      tickCount ?s + crossings (lastTickIndex ?s #
        map (frameIndex V1 500 (spinAnimation V1 500 0 0 ?s) (currentItems ?s))
          ([1000, 2000] @ [4000]))"
    unfolding completed_spin [OF h1 h2 h3 h4 demo_spin_valid] by simp
  then show ?thesis
    unfolding items last count by (simp add: single_item_index js_neq_def)
qed

text \<open>
  Claim C5 (spin guard). A call of \<open>spinWheel\<close> while a spin is in progress or
  while the list is empty returns the state unchanged: nothing is written and no
  callback is registered. Hence a second call right after a first one changes
  nothing, whatever the state before the first; and when the first call starts
  a spin on an idle page, the two calls and the frames of the spin show exactly
  one result.
\<close>

theorem spin_guard:
  "(isSpinning s \<or> currentItems s = [] \<longrightarrow> spinWheel v ch r t s = s)
   \<and> spinWheel v ch r' t' (spinWheel v ch r t s) = spinWheel v ch r t s
   \<and> (0 < ch \<and> \<not> isSpinning s \<and> pending s = [] \<and> currentItems s \<noteq> []
        \<and> validSpin (r, t, ts, now) \<longrightarrow>
      (\<exists>label. shown (run v ch (Spin r t # Spin r' t' # map Frame ts @ [Frame now]) s)
         = shown s @ [label]))"
proof (intro conjI impI)
  assume "isSpinning s \<or> currentItems s = []"
  then show "spinWheel v ch r t s = s" by (rule spinWheel_guard)
next
  show "spinWheel v ch r' t' (spinWheel v ch r t s) = spinWheel v ch r t s"
    by (rule spinWheel_idem)
next
  assume h: "0 < ch \<and> \<not> isSpinning s \<and> pending s = [] \<and> currentItems s \<noteq> []
        \<and> validSpin (r, t, ts, now)"
  have "run v ch (Spin r t # Spin r' t' # map Frame ts @ [Frame now]) s =
      run v ch (spinEvents (r, t, ts, now)) s"
    by (simp add: run_Cons spinEvents_def spinWheel_idem)
  also have "shown \<dots> =
      shown s @ [Some (currentItems s ! nat \<lfloor>r * of_nat (length (currentItems s))\<rfloor>)]"
    using h by (simp add: completed_spin)
  finally show "\<exists>label. shown (run v ch (Spin r t # Spin r' t' # map Frame ts @ [Frame now]) s)
         = shown s @ [label]" by blast
qed

theorem spin_guard_witness:
  "spinWheel V1 500 (1 / 2) 7 (spinWheel V1 500 0 0 demo) = spinWheel V1 500 0 0 demo
   \<and> (\<exists>label. shown (run V1 500 (Spin 0 0 # Spin (1 / 2) 7 # map Frame [1000, 2000] @ [Frame 4000])
        demo) = shown demo @ [label])"
proof -
  have h: "0 < (500::nat) \<and> \<not> isSpinning demo \<and> pending demo = [] \<and> currentItems demo \<noteq> []
        \<and> validSpin (0, 0, [1000, 2000], 4000)"
    using demo_idle demo_spin_valid by (simp add: idle_def demo_items)
  have g: "isSpinning (spinWheel V1 500 0 0 demo) \<or> currentItems (spinWheel V1 500 0 0 demo) = []"
    by (simp add: spinWheel_def demo_def initial_def Let_def)
  show ?thesis
    using spin_guard [of demo V1 500 0 0 "1 / 2" 7 "[1000, 2000]" 4000]
      spin_guard [of "spinWheel V1 500 0 0 demo" V1 500 "1 / 2" 7] h g
    by blast
qed

text \<open>
  Claim C6 (settle notification). A completed spin on an idle page with a
  non-empty list shows exactly one result: the click and the frames before the
  last one show nothing, and the last frame appends one entry. Its label is the
  element of the list as it was before the removal at the settled
  \<open>selectedIndex\<close>.
\<close>

theorem settle_notification:
  assumes "0 < ch" "\<not> isSpinning s" "pending s = []" "currentItems s \<noteq> []"
    "validSpin (r, t, ts, now)"
  shows "shown (run v ch (Spin r t # map Frame ts) s) = shown s
    \<and> shown (run v ch (spinEvents (r, t, ts, now)) s) =
        shown s @ [element (currentItems s)
          (selectedIndex (run v ch (spinEvents (r, t, ts, now)) s))]
    \<and> element (currentItems s) (selectedIndex (run v ch (spinEvents (r, t, ts, now)) s)) =
        Some (currentItems s ! nat \<lfloor>r * of_nat (length (currentItems s))\<rfloor>)"
proof -
  let ?n = "length (currentItems s)"
  let ?w = "\<lfloor>r * of_nat ?n\<rfloor>"
  let ?a = "spinAnimation v ch r t s"
  have r: "0 \<le> r" "r < 1" and early: "list_all (\<lambda>u. u - t < duration) ts"
    using assms(5) by (simp_all add: validSpin_def)
  have w: "0 \<le> ?w" "?w < int ?n"
    using random_index_range [OF r, of ?n] assms(4) by simp_all
  note a = spinWheel_pending [OF assms(2,4), of v ch r t]
  have prog: "list_all (\<lambda>u. progressAt ?a u < 1) ts"
    using early by (simp add: progress_less a(2))
  have p1: "pending (spinWheel v ch r t s) = [?a]" using a(1) assms(3) by simp
  have sp: "isSpinning (spinWheel v ch r t s)" using assms(2,4) by (simp add: spinWheel_start)
  have "shown (run v ch (map Frame ts) (spinWheel v ch r t s)) = shown (spinWheel v ch r t s)"
    unfolding frames_progress [OF p1 sp prog] by simp
  then have before: "shown (run v ch (Spin r t # map Frame ts) s) = shown s"
    using assms(2,4) by (simp add: run_Cons spinWheel_start)
  have sel: "selectedIndex (run v ch (spinEvents (r, t, ts, now)) s) = Num ?w"
    unfolding completed_spin [OF assms] by simp
  have sh: "shown (run v ch (spinEvents (r, t, ts, now)) s) =
      shown s @ [Some (currentItems s ! nat ?w)]"
    unfolding completed_spin [OF assms] by simp
  show ?thesis unfolding sel sh element_Num [OF w] using before by simp
qed

theorem settle_notification_witness:
  "shown (run V1 500 (spinEvents (0, 0, [1000, 2000], 4000)) demo) =
     shown demo @ [Some (currentItems demo ! nat \<lfloor>(0::rat) * of_nat (length (currentItems demo))\<rfloor>)]"
proof -
  have h1: "0 < (500::nat)" by simp
  have h2: "\<not> isSpinning demo" using demo_idle by (simp add: idle_def)
  have h3: "pending demo = []" using demo_idle by (simp add: idle_def)
  have h4: "currentItems demo \<noteq> []" by (simp add: demo_items)
  show ?thesis
    using settle_notification [OF h1 h2 h3 h4 demo_spin_valid, of V1] by simp
qed

section \<open>The item list\<close>

text \<open>
  Claim C7 (removal and exhaustion). On an idle page with a positive canvas
  height, a completed spin removes the element at the winning index and nothing
  else (the other elements keep their order, the length drops by one), and sets
  the offset to \<open>0\<close>. Hence as many completed spins as the list has elements
  empty the list, and the labels shown by these spins are the elements of the
  list, each position exactly once, in some order.
\<close>

theorem removal_and_exhaustion:
  assumes "0 < ch" "\<not> isSpinning s" "pending s = []"
  shows "(currentItems s \<noteq> [] \<and> validSpin (r, t, ts, now) \<longrightarrow>
      currentItems (run v ch (spinEvents (r, t, ts, now)) s) =
        take (nat \<lfloor>r * of_nat (length (currentItems s))\<rfloor>) (currentItems s) @
        drop (Suc (nat \<lfloor>r * of_nat (length (currentItems s))\<rfloor>)) (currentItems s)
      \<and> length (currentItems (run v ch (spinEvents (r, t, ts, now)) s)) =
        length (currentItems s) - 1
      \<and> currentOffset (run v ch (spinEvents (r, t, ts, now)) s) = 0)
    \<and> (list_all validSpin sps \<and> length sps = length (currentItems s) \<longrightarrow>
      (\<exists>ws. currentItems (run v ch (concat (map spinEvents sps)) s) = []
        \<and> shown (run v ch (concat (map spinEvents sps)) s) = shown s @ map Some ws
        \<and> mset ws = mset (currentItems s)))"
proof (intro conjI impI)
  assume h: "currentItems s \<noteq> [] \<and> validSpin (r, t, ts, now)"
  let ?items = "currentItems s"
  let ?w = "\<lfloor>r * of_nat (length ?items)\<rfloor>"
  have r: "0 \<le> r" "r < 1" using h by (simp_all add: validSpin_def)
  have wn: "nat ?w < length ?items"
    using h by (intro random_index_nat [OF r]) simp
  note cs = completed_spin [OF assms conjunct1 [OF h] conjunct2 [OF h], of v]
  show items: "currentItems (run v ch (spinEvents (r, t, ts, now)) s) =
      take (nat ?w) ?items @ drop (Suc (nat ?w)) ?items"
    unfolding cs by simp
  show "length (currentItems (run v ch (spinEvents (r, t, ts, now)) s)) = length ?items - 1"
    unfolding items by (rule length_remove_nth [OF wn])
  show "currentOffset (run v ch (spinEvents (r, t, ts, now)) s) = 0"
    unfolding cs by simp
next
  assume "list_all validSpin sps \<and> length sps = length (currentItems s)"
  then show "\<exists>ws. currentItems (run v ch (concat (map spinEvents sps)) s) = []
        \<and> shown (run v ch (concat (map spinEvents sps)) s) = shown s @ map Some ws
        \<and> mset ws = mset (currentItems s)"
    using spins_exhaust [OF assms(1,2,3), of sps v] by blast
qed

theorem removal_and_exhaustion_witness:
  "currentItems (run V1 500 (spinEvents (0, 0, [1000, 2000], 4000)) demo) =
     take (nat \<lfloor>(0::rat) * of_nat (length (currentItems demo))\<rfloor>) (currentItems demo) @
     drop (Suc (nat \<lfloor>(0::rat) * of_nat (length (currentItems demo))\<rfloor>)) (currentItems demo)
   \<and> (\<exists>ws. currentItems (run V1 500 (concat (map spinEvents
          [(0, 0, [1000, 2000], 4000), (0, 0, [1000, 2000], 4000), (0, 0, [1000, 2000], 4000)]))
          demo) = []
        \<and> shown (run V1 500 (concat (map spinEvents
          [(0, 0, [1000, 2000], 4000), (0, 0, [1000, 2000], 4000), (0, 0, [1000, 2000], 4000)]))
          demo) = shown demo @ map Some ws
        \<and> mset ws = mset (currentItems demo))"
proof -
  have h1: "0 < (500::nat)" by simp
  have h2: "\<not> isSpinning demo" using demo_idle by (simp add: idle_def)
  have h3: "pending demo = []" using demo_idle by (simp add: idle_def)
  have h4: "currentItems demo \<noteq> [] \<and> validSpin (0, 0, [1000, 2000], 4000)"
    using demo_spin_valid by (simp add: demo_items)
  have h5: "list_all validSpin
      [(0, 0, [1000, 2000], 4000), (0, 0, [1000, 2000], 4000), (0, 0, [1000, 2000], 4000)]
    \<and> length [(0::rat, 0::rat, [1000, 2000::rat], 4000::rat), (0, 0, [1000, 2000], 4000),
        (0, 0, [1000, 2000], 4000)] = length (currentItems demo)"
    using demo_spin_valid by (simp add: demo_items)
  note T = removal_and_exhaustion [OF h1 h2 h3, of 0 0 "[1000, 2000]" 4000 V1
        "[(0, 0, [1000, 2000], 4000), (0, 0, [1000, 2000], 4000), (0, 0, [1000, 2000], 4000)]"]
  from conjunct1 [OF T, THEN mp, OF h4] conjunct2 [OF T, THEN mp, OF h5]
  show ?thesis by blast
qed

text \<open>
  Claim C8 (reset). After a click on generate with a non-empty input and any
  events that are not another generate (in particular any sequence of completed
  spins), a click on reset sets the list to the shuffled list that generate
  stored, in the same order, the offset to \<open>0\<close> and \<open>isSpinning\<close> to false. With
  no original list stored, reset changes nothing.
\<close>

theorem reset_restores:
  assumes "input \<noteq> []" "list_all notGenerate es"
  shows "currentItems (reset (run v ch es (generate rnd input s))) = shuffleArray rnd input
    \<and> currentItems (reset (run v ch es (generate rnd input s))) =
        currentItems (generate rnd input s)
    \<and> currentOffset (reset (run v ch es (generate rnd input s))) = 0
    \<and> \<not> isSpinning (reset (run v ch es (generate rnd input s)))
    \<and> (originalItems s' = [] \<longrightarrow> reset s' = s')"
proof -
  let ?s = "run v ch es (generate rnd input s)"
  have orig: "originalItems ?s = shuffleArray rnd input"
    unfolding run_originalItems [OF assms(2)] using assms(1) by (rule generate_originalItems)
  have "length (shuffleArray rnd input) = length input" by (rule length_shuffleArray)
  then have ne: "originalItems ?s \<noteq> []" unfolding orig using assms(1) by auto
  show ?thesis
    unfolding reset_fields(1) [OF ne] generate_currentItems [OF assms(1)] orig
    using reset_fields(2,3) [OF ne] reset_noop [of s'] by simp
qed

theorem reset_restores_witness:
  "currentItems (reset (run V1 500
      (spinEvents (0, 0, [1000, 2000], 4000) @ spinEvents (0, 5000, [6000], 9000))
      (generate (\<lambda>i. 0) [''A'', ''B'', ''C''] initial)))
    = shuffleArray (\<lambda>i. 0) [''A'', ''B'', ''C'']"
proof -
  have h1: "[''A'', ''B'', ''C''] \<noteq> []" by simp
  have h2: "list_all notGenerate
      (spinEvents (0, 0, [1000, 2000], 4000) @ spinEvents (0, 5000, [6000], 9000))"
    by (simp add: spinEvents_def)
  show ?thesis using reset_restores [OF h1 h2, of V1 500 "\<lambda>i. 0" initial] by blast
qed

section \<open>Animations in flight\<close>

text \<open>
  Claim C9 (single spin in flight): evaluation of the script where the claim
  fails. On the page with the wheel \<open>A\<close>, \<open>B\<close>, \<open>C\<close>, a click on spin, a click on
  reset and a second click on spin leave two animation callbacks waiting for
  the next frame: reset has set \<open>isSpinning\<close> to false while the animation of
  the first spin is still registered, so the guard of \<open>spinWheel\<close> lets the
  second spin start.
\<close>

theorem second_spin_after_reset:
  "length (pending (run V1 500 [Spin 0 0, Reset, Spin 0 10] demo)) = 2
   \<and> isSpinning (run V1 500 [Spin 0 0, Reset, Spin 0 10] demo)"
  by (simp add: run_Cons run_Nil spinWheel_def reset_def demo_def initial_def Let_def)

end
